theory Spec2Isabelle
  imports Complex_Main "HOL-Library.Multiset"
begin

section \<open>Vinyl Player: playlist and playback state core\<close>

text \<open>
  A shallow embedding of \<^verbatim>\<open>src/reproductor_musica.py\<close>: the classes
  \<^verbatim>\<open>PlaybackState\<close> and \<^verbatim>\<open>PlaylistManager\<close> and the playback-control methods of
  \<^verbatim>\<open>VinylPlayer\<close>. Python's unbounded integers are \<^typ>\<open>int\<close>; Python's floats
  (time stamps and durations in seconds) are modelled as \<^typ>\<open>real\<close>, that is with exact
  arithmetic: rounding of floating-point operations is outside this model. Every call
  of \<^verbatim>\<open>time.time()\<close> is an explicit argument of the function that makes it.
\<close>

subsection \<open>PlaybackState\<close>

record PlaybackState =
  is_playing :: bool
  is_paused :: bool
  track_length :: real
  start_time :: real
  pause_accum :: real
  last_pause :: real

text \<open>\<^verbatim>\<open>PlaybackState.reset\<close> assigns every field, so its result is one constant state.\<close>

definition reset :: PlaybackState where
  "reset = \<lparr>is_playing = False, is_paused = False, track_length = 0,
            start_time = 0, pause_accum = 0, last_pause = 0\<rparr>"

text \<open>The transport phase of the specification, read off the two flags of the code.\<close>

datatype phase = Stopped | Playing | Paused

definition phase_of :: "PlaybackState \<Rightarrow> phase" where
  "phase_of ps = (if \<not> is_playing ps then Stopped
                  else if is_paused ps then Paused else Playing)"

subsection \<open>PlaylistManager\<close>

record PlaylistManager =
  playlist :: "string list"
  original_order :: "string list"
  current_index :: int
  repeat_mode :: int
  shuffle_mode :: bool

text \<open>\<^verbatim>\<open>PlaylistManager.__init__\<close>\<close>

definition init_playlist_manager :: PlaylistManager where
  "init_playlist_manager =
     \<lparr>playlist = [], original_order = [], current_index = -1,
      repeat_mode = 0, shuffle_mode = False\<rparr>"

datatype error = IndexError

text \<open>\<^verbatim>\<open>del xs[i]\<close> and \<^verbatim>\<open>xs.pop(i)\<close> for an index that is in range.\<close>

definition delete_at :: "nat \<Rightarrow> 'a list \<Rightarrow> 'a list" where
  "delete_at i xs = take i xs @ drop (Suc i) xs"

text \<open>\<^verbatim>\<open>xs.index(x)\<close>: the position of the first match (used only where \<^verbatim>\<open>x in xs\<close>).\<close>

fun index_of :: "'a \<Rightarrow> 'a list \<Rightarrow> nat" where
  "index_of x [] = 0"
| "index_of x (y # ys) = (if x = y then 0 else Suc (index_of x ys))"

definition update_original_order :: "PlaylistManager \<Rightarrow> PlaylistManager" where
  "update_original_order s = s\<lparr>original_order := playlist s\<rparr>"

text \<open>
  \<^verbatim>\<open>add_files\<close>: the test \<^verbatim>\<open>Path(file).suffix.lower() in AudioFormats.EXTENSIONS\<close>
  is the parameter \<open>supported\<close> (pathlib is not part of the program).
\<close>

definition add_files_step :: "(string \<Rightarrow> bool) \<Rightarrow> string \<Rightarrow> PlaylistManager \<Rightarrow> PlaylistManager" where
  "add_files_step supported file s =
     (if supported file then s\<lparr>playlist := playlist s @ [file]\<rparr> else s)"

definition add_files :: "(string \<Rightarrow> bool) \<Rightarrow> string list \<Rightarrow> PlaylistManager \<Rightarrow> PlaylistManager" where
  "add_files supported files s =
     update_original_order (fold (add_files_step supported) files s)"

text \<open>
  \<^verbatim>\<open>add_folder\<close>: \<open>entries\<close> is what \<^verbatim>\<open>folder_path.rglob("*")\<close> enumerates, in its
  order. The result is the count of entries added and the new state.
\<close>

definition add_folder_step :: "(string \<Rightarrow> bool) \<Rightarrow> string \<Rightarrow> int \<times> PlaylistManager \<Rightarrow> int \<times> PlaylistManager" where
  "add_folder_step supported file_path acc =
     (case acc of (added, s) \<Rightarrow>
        if supported file_path then (added + 1, s\<lparr>playlist := playlist s @ [file_path]\<rparr>)
        else (added, s))"

definition add_folder :: "(string \<Rightarrow> bool) \<Rightarrow> string list \<Rightarrow> PlaylistManager \<Rightarrow> int \<times> PlaylistManager" where
  "add_folder supported entries s =
     (case fold (add_folder_step supported) entries (0, s) of
        (added, s1) \<Rightarrow> (added, update_original_order s1))"

text \<open>The body of the loop of \<^verbatim>\<open>remove_items\<close>, for one index.\<close>

definition remove_items_step :: "int \<Rightarrow> PlaylistManager \<Rightarrow> PlaylistManager" where
  "remove_items_step idx s =
     (if 0 \<le> idx \<and> idx < int (length (playlist s)) then
        (let s1 = s\<lparr>playlist := delete_at (nat idx) (playlist s)\<rparr> in
         if idx = current_index s1 then s1\<lparr>current_index := -1\<rparr>
         else if idx < current_index s1 then s1\<lparr>current_index := current_index s1 - 1\<rparr>
         else s1)
      else s)"

text \<open>\<^verbatim>\<open>sorted(indices, reverse=True)\<close> is \<open>rev (sort indices)\<close>.\<close>

definition remove_items :: "int list \<Rightarrow> PlaylistManager \<Rightarrow> PlaylistManager" where
  "remove_items indices s =
     (let s1 = fold remove_items_step (rev (sort indices)) s;
          s2 = update_original_order s1
      in if playlist s2 \<noteq> [] \<and> current_index s2 \<ge> int (length (playlist s2))
         then s2\<lparr>current_index := int (length (playlist s2)) - 1\<rparr>
         else s2)"

definition clear :: "PlaylistManager \<Rightarrow> PlaylistManager" where
  "clear s = s\<lparr>playlist := [], original_order := [], current_index := -1\<rparr>"

text \<open>
  \<^verbatim>\<open>self.playlist[self.current_index] if self.current_index >= 0 else None\<close>:
  an index at or beyond the length raises IndexError.
\<close>

definition current_track :: "PlaylistManager \<Rightarrow> error + string option" where
  "current_track s =
     (if current_index s \<ge> 0 then
        (if current_index s < int (length (playlist s))
         then Inr (Some (playlist s ! nat (current_index s)))
         else Inl IndexError)
      else Inr None)"

text \<open>Python's truth value of \<^verbatim>\<open>current_track\<close>: None and the empty string are false.\<close>

fun truthy :: "string option \<Rightarrow> bool" where
  "truthy None = False"
| "truthy (Some t) = (t \<noteq> [])"

text \<open>
  \<^verbatim>\<open>_apply_shuffle\<close>: \<open>shuf\<close> is the outcome of \<^verbatim>\<open>random.shuffle\<close>, a function
  from the list handed to it to the list it leaves.
\<close>

definition apply_shuffle :: "(string list \<Rightarrow> string list) \<Rightarrow> PlaylistManager \<Rightarrow> error + PlaylistManager" where
  "apply_shuffle shuf s =
     (if playlist s = [] then Inr s
      else case current_track s of
        Inl e \<Rightarrow> Inl e
      | Inr ct \<Rightarrow>
          (let temp_playlist = playlist s;
               temp_playlist = (if truthy ct then delete_at (nat (current_index s)) temp_playlist
                                else temp_playlist);
               temp_playlist = shuf temp_playlist
           in case ct of
                Some t \<Rightarrow>
                  if t \<noteq> [] then Inr (s\<lparr>current_index := 0, playlist := t # temp_playlist\<rparr>)
                  else Inr (s\<lparr>playlist := temp_playlist\<rparr>)
              | None \<Rightarrow> Inr (s\<lparr>playlist := temp_playlist\<rparr>)))"

definition restore_original_order :: "PlaylistManager \<Rightarrow> error + PlaylistManager" where
  "restore_original_order s =
     (if original_order s = [] then Inr s
      else case current_track s of
        Inl e \<Rightarrow> Inl e
      | Inr ct \<Rightarrow>
          (let s1 = s\<lparr>playlist := original_order s\<rparr>
           in case ct of
                Some t \<Rightarrow>
                  if t \<noteq> [] \<and> t \<in> set (playlist s1)
                  then Inr (s1\<lparr>current_index := int (index_of t (playlist s1))\<rparr>)
                  else Inr s1
              | None \<Rightarrow> Inr s1))"

definition toggle_shuffle :: "(string list \<Rightarrow> string list) \<Rightarrow> PlaylistManager \<Rightarrow> error + PlaylistManager" where
  "toggle_shuffle shuf s =
     (let s1 = s\<lparr>shuffle_mode := \<not> shuffle_mode s\<rparr>
      in if shuffle_mode s1 then apply_shuffle shuf s1 else restore_original_order s1)"

text \<open>Python's \<^verbatim>\<open>%\<close> with a positive modulus is \<open>mod\<close> on \<^typ>\<open>int\<close>.\<close>

definition get_next_index :: "PlaylistManager \<Rightarrow> int" where
  "get_next_index s =
     (if playlist s = [] then -1
      else if repeat_mode s = 1 then current_index s
      else (current_index s + 1) mod int (length (playlist s)))"

definition get_prev_index :: "PlaylistManager \<Rightarrow> int" where
  "get_prev_index s =
     (if playlist s = [] then -1
      else if repeat_mode s = 1 then current_index s
      else (current_index s - 1) mod int (length (playlist s)))"

text \<open>
  The cursor updates of \<^verbatim>\<open>VinylPlayer.next_track\<close> and \<^verbatim>\<open>prev_track\<close>, as they act
  on the playlist manager: nothing on an empty playlist, otherwise
  \<^verbatim>\<open>current_index = get_next_index()\<close>.
\<close>

definition next_cursor :: "PlaylistManager \<Rightarrow> PlaylistManager" where
  "next_cursor s = (if playlist s = [] then s else s\<lparr>current_index := get_next_index s\<rparr>)"

definition prev_cursor :: "PlaylistManager \<Rightarrow> PlaylistManager" where
  "prev_cursor s = (if playlist s = [] then s else s\<lparr>current_index := get_prev_index s\<rparr>)"

definition toggle_repeat_mode :: "PlaylistManager \<Rightarrow> PlaylistManager" where
  \<comment> \<open>the assignment of \<^verbatim>\<open>VinylPlayer.toggle_repeat\<close>\<close>
  "toggle_repeat_mode s = s\<lparr>repeat_mode := (repeat_mode s + 1) mod 2\<rparr>"

subsection \<open>The states the playlist manager can reach\<close>

text \<open>
  \<^verbatim>\<open>random.shuffle\<close> leaves a permutation of the list it is given.
\<close>

definition is_shuffle :: "(string list \<Rightarrow> string list) \<Rightarrow> bool" where
  "is_shuffle shuf \<longleftrightarrow> (\<forall>xs. mset (shuf xs) = mset xs)"

text \<open>
  The player starts from \<^verbatim>\<open>PlaylistManager()\<close> and changes it only through the
  operations below. \<open>select\<close> is the assignment of a row of the displayed playlist to
  \<^verbatim>\<open>current_index\<close> (\<^verbatim>\<open>add_files\<close>, \<^verbatim>\<open>add_folder\<close>, \<^verbatim>\<open>play_pause\<close> and
  \<^verbatim>\<open>_double_click_play\<close> of the player). An operation that raises reaches no state.
\<close>

inductive reachable :: "PlaylistManager \<Rightarrow> bool" where
  r_init: "reachable init_playlist_manager"
| r_add_files: "reachable s \<Longrightarrow> reachable (add_files supported files s)"
| r_add_folder: "reachable s \<Longrightarrow> reachable (snd (add_folder supported entries s))"
| r_remove_items: "reachable s \<Longrightarrow> reachable (remove_items indices s)"
| r_clear: "reachable s \<Longrightarrow> reachable (clear s)"
| r_toggle_shuffle:
    "reachable s \<Longrightarrow> is_shuffle shuf \<Longrightarrow> toggle_shuffle shuf s = Inr s' \<Longrightarrow> reachable s'"
| r_next: "reachable s \<Longrightarrow> reachable (next_cursor s)"
| r_prev: "reachable s \<Longrightarrow> reachable (prev_cursor s)"
| r_toggle_repeat: "reachable s \<Longrightarrow> reachable (toggle_repeat_mode s)"
| r_select:
    "reachable s \<Longrightarrow> 0 \<le> i \<Longrightarrow> i < int (length (playlist s)) \<Longrightarrow>
     reachable (s\<lparr>current_index := i\<rparr>)"

definition cursor_ok :: "PlaylistManager \<Rightarrow> bool" where
  "cursor_ok s \<longleftrightarrow>
     current_index s = -1 \<or>
     (0 \<le> current_index s \<and> current_index s < int (length (playlist s)))"

definition snapshot_ok :: "PlaylistManager \<Rightarrow> bool" where
  "snapshot_ok s \<longleftrightarrow>
     mset (original_order s) = mset (playlist s) \<and>
     (\<not> shuffle_mode s \<longrightarrow> original_order s = playlist s)"

subsection \<open>VinylPlayer: the playback controls\<close>

text \<open>
  What the player does to the mixer (\<^verbatim>\<open>pygame.mixer.music\<close>) and what it shows, in the
  order of the calls. The widgets (buttons, labels, the rotating image) are not modelled.
\<close>

datatype effect =
    UpdateCover string
  | MixerLoad string
  | MixerPlay real
  | MixerPause
  | MixerUnpause
  | MixerStop
  | ShowLoadError string
  | ShowNoSongs

text \<open>
  The environment of one call: whether \<^verbatim>\<open>pygame.mixer.music.load(path)\<close> raises, what
  mutagen and \<^verbatim>\<open>pygame.mixer.Sound\<close> report as the length (None where the attempt
  raises or yields nothing), and whether \<^verbatim>\<open>pygame.mixer.music.play(start=sec)\<close> raises.
\<close>

record Backend =
  load_raises :: "string \<Rightarrow> bool"
  mutagen_length :: "string \<Rightarrow> real option"
  sound_length :: "string \<Rightarrow> real option"
  play_raises :: "real \<Rightarrow> bool"

record VinylPlayer =
  playlist_manager :: PlaylistManager
  playback_state :: PlaybackState
  user_dragging :: bool
  effects :: "effect list"

definition emit :: "effect \<Rightarrow> VinylPlayer \<Rightarrow> VinylPlayer" where
  "emit e p = p\<lparr>effects := effects p @ [e]\<rparr>"

definition probe_length :: "Backend \<Rightarrow> string \<Rightarrow> real" where
  "probe_length b path =
     (case mutagen_length b path of
        Some l \<Rightarrow> l
      | None \<Rightarrow>
          (case sound_length b path of
             Some l \<Rightarrow> if l > 2 / 10 then l else 0
           | None \<Rightarrow> 0))"

text \<open>\<^verbatim>\<open>load_and_play\<close>; \<open>now\<close> is the value of its one call of \<^verbatim>\<open>time.time()\<close>.\<close>

definition load_and_play :: "Backend \<Rightarrow> real \<Rightarrow> int \<Rightarrow> VinylPlayer \<Rightarrow> VinylPlayer" where
  "load_and_play b now index p =
     (if index < 0 \<or> index \<ge> int (length (playlist (playlist_manager p))) then p
      else
        (let path = playlist (playlist_manager p) ! nat index;
             p1 = emit (UpdateCover path) p
         in if load_raises b path then emit (ShowLoadError path) p1
            else
              (let p2 = emit (MixerLoad path) p1;
                   p3 = p2\<lparr>playback_state :=
                           (playback_state p2)\<lparr>track_length := probe_length b path\<rparr>\<rparr>;
                   p4 = emit (MixerPlay 0) p3
               in p4\<lparr>playback_state :=
                       (playback_state p4)\<lparr>is_playing := True, is_paused := False,
                          start_time := now, pause_accum := 0, last_pause := 0\<rparr>\<rparr>)))"

definition stop :: "VinylPlayer \<Rightarrow> VinylPlayer" where
  "stop p = (emit MixerStop p)\<lparr>playback_state := reset\<rparr>"

text \<open>
  \<^verbatim>\<open>play_pause\<close>; \<open>selection\<close> is the playlist index of the selected row of the
  listbox, if a row is selected.
\<close>

definition play_pause :: "Backend \<Rightarrow> real \<Rightarrow> int option \<Rightarrow> VinylPlayer \<Rightarrow> VinylPlayer" where
  "play_pause b now selection p =
     (let ps = playback_state p; pm = playlist_manager p
      in if playlist pm = [] then emit ShowNoSongs p
         else if is_playing ps \<and> \<not> is_paused ps then
           (emit MixerPause p)\<lparr>playback_state := ps\<lparr>is_paused := True, last_pause := now\<rparr>\<rparr>
         else if is_playing ps \<and> is_paused ps then
           (emit MixerUnpause p)\<lparr>playback_state :=
              ps\<lparr>is_paused := False, pause_accum := pause_accum ps + (now - last_pause ps)\<rparr>\<rparr>
         else
           (let pm1 = (case selection of
                         Some i \<Rightarrow> pm\<lparr>current_index := i\<rparr>
                       | None \<Rightarrow> if current_index pm = -1 then pm\<lparr>current_index := 0\<rparr> else pm)
            in load_and_play b now (current_index pm1) (p\<lparr>playlist_manager := pm1\<rparr>)))"

definition next_track :: "Backend \<Rightarrow> real \<Rightarrow> VinylPlayer \<Rightarrow> VinylPlayer" where
  "next_track b now p =
     (if playlist (playlist_manager p) = [] then p
      else
        (let next_index = get_next_index (playlist_manager p);
             p1 = p\<lparr>playlist_manager := (playlist_manager p)\<lparr>current_index := next_index\<rparr>\<rparr>
         in load_and_play b now next_index p1))"

definition prev_track :: "Backend \<Rightarrow> real \<Rightarrow> VinylPlayer \<Rightarrow> VinylPlayer" where
  "prev_track b now p =
     (if playlist (playlist_manager p) = [] then p
      else
        (let prev_index = get_prev_index (playlist_manager p);
             p1 = p\<lparr>playlist_manager := (playlist_manager p)\<lparr>current_index := prev_index\<rparr>\<rparr>
         in load_and_play b now prev_index p1))"


text \<open>\<^verbatim>\<open>_elapsed_time\<close>; \<open>now\<close> is \<^verbatim>\<open>time.time()\<close>, read in the last branch only.\<close>

definition elapsed_time :: "real \<Rightarrow> PlaybackState \<Rightarrow> real" where
  "elapsed_time now ps =
     (if \<not> is_playing ps then 0
      else if is_paused ps
           then max 0 ((last_pause ps - start_time ps) - pause_accum ps)
           else max 0 ((now - start_time ps) - pause_accum ps))"

text \<open>Python's \<^verbatim>\<open>int(x)\<close> of a float truncates towards zero.\<close>

definition py_int :: "real \<Rightarrow> int" where
  "py_int x = (if x \<ge> 0 then \<lfloor>x\<rfloor> else \<lceil>x\<rceil>)"

text \<open>
  \<^verbatim>\<open>_seek_end\<close>; \<open>val\<close> is \<^verbatim>\<open>self.progress.get()\<close>, the position of the scale
  (which runs from 0), \<open>t1\<close> and \<open>t2\<close> are the two calls of \<^verbatim>\<open>time.time()\<close>, in
  the order of the code: the first for \<^verbatim>\<open>start_time\<close>, the second, made only when the
  player was paused, for \<^verbatim>\<open>last_pause\<close>. An exception of the mixer is swallowed by the
  code. The division and the subtraction are the exact ones here, where Python rounds
  each to a double; the statements about a seek give the anchors and the elapsed time
  as the expressions of the code and use no law of exact arithmetic that rounding
  breaks.
\<close>

definition seek_end :: "Backend \<Rightarrow> real \<Rightarrow> real \<Rightarrow> real \<Rightarrow> VinylPlayer \<Rightarrow> VinylPlayer" where
  "seek_end b val t1 t2 p =
     (let ps = playback_state p
      in if \<not> is_playing ps \<or> track_length ps \<le> 0 then p\<lparr>user_dragging := False\<rparr>
         else if track_length ps > 0 then
           (let ms = py_int val;
                sec = real_of_int ms / 1000;
                was_paused = is_paused ps;
                p1 = (if play_raises b sec then p
                      else if was_paused then emit MixerPause (emit (MixerPlay sec) p)
                      else emit (MixerPlay sec) p)
            in p1\<lparr>playback_state :=
                    ps\<lparr>start_time := t1 - sec, pause_accum := 0,
                       last_pause := (if was_paused then t2 else 0)\<rparr>,
                  user_dragging := False\<rparr>)
         else p\<lparr>user_dragging := False\<rparr>)"


subsection \<open>Concrete states for the examples\<close>

definition failing_backend :: Backend where
  "failing_backend =
     \<lparr>load_raises = (\<lambda>path. True), mutagen_length = (\<lambda>path. None),
      sound_length = (\<lambda>path. None), play_raises = (\<lambda>sec. False)\<rparr>"

definition working_backend :: Backend where
  "working_backend =
     \<lparr>load_raises = (\<lambda>path. False), mutagen_length = (\<lambda>path. Some 180),
      sound_length = (\<lambda>path. None), play_raises = (\<lambda>sec. False)\<rparr>"

definition two_tracks :: PlaylistManager where
  "two_tracks =
     \<lparr>playlist = [''a.mp3'', ''b.mp3''], original_order = [''a.mp3'', ''b.mp3''],
      current_index = 0, repeat_mode = 0, shuffle_mode = False\<rparr>"

definition four_tracks :: PlaylistManager where
  "four_tracks =
     \<lparr>playlist = [''A.mp3'', ''B.mp3'', ''C.mp3'', ''D.mp3''],
      original_order = [''A.mp3'', ''B.mp3'', ''C.mp3'', ''D.mp3''],
      current_index = 2, repeat_mode = 0, shuffle_mode = False\<rparr>"

definition three_tracks :: PlaylistManager where
  "three_tracks =
     \<lparr>playlist = [''A.mp3'', ''B.mp3'', ''C.mp3''],
      original_order = [''A.mp3'', ''B.mp3'', ''C.mp3''],
      current_index = 1, repeat_mode = 0, shuffle_mode = False\<rparr>"

text \<open>The four tracks after entering shuffle with the third one current.\<close>

definition shuffled_four_tracks :: PlaylistManager where
  "shuffled_four_tracks =
     \<lparr>playlist = [''C.mp3'', ''D.mp3'', ''B.mp3'', ''A.mp3''],
      original_order = [''A.mp3'', ''B.mp3'', ''C.mp3'', ''D.mp3''],
      current_index = 0, repeat_mode = 0, shuffle_mode = True\<rparr>"

text \<open>A test of the extension that admits every path.\<close>

definition all_supported :: "string \<Rightarrow> bool" where
  "all_supported file = True"

text \<open>A player in the middle of the first of two tracks, started at time 100.\<close>

definition playing_player :: VinylPlayer where
  "playing_player =
     \<lparr>playlist_manager = two_tracks,
      playback_state =
        \<lparr>is_playing = True, is_paused = False, track_length = 180,
         start_time = 100, pause_accum = 0, last_pause = 0\<rparr>,
      user_dragging = False, effects = []\<rparr>"

text \<open>The same player, paused at time 103.\<close>

definition paused_player :: VinylPlayer where
  "paused_player =
     \<lparr>playlist_manager = two_tracks,
      playback_state =
        \<lparr>is_playing = True, is_paused = True, track_length = 180,
         start_time = 100, pause_accum = 0, last_pause = 103\<rparr>,
      user_dragging = False, effects = []\<rparr>"

section \<open>Cursor arithmetic\<close>

lemma next_cursor_funpow:
  assumes "playlist s \<noteq> []" "repeat_mode s \<noteq> 1"
  shows "(next_cursor ^^ k) s =
         (if k = 0 then s
          else s\<lparr>current_index := (current_index s + int k) mod int (length (playlist s))\<rparr>)"
proof (induction k)
  case 0
  show ?case by simp
next
  case (Suc k)
  show ?case
  proof (cases "k = 0")
    case True
    with assms show ?thesis by (simp add: next_cursor_def get_next_index_def)
  next
    case False
    with Suc assms show ?thesis
      by (simp add: next_cursor_def get_next_index_def mod_simps ac_simps)
  qed
qed

lemma prev_cursor_funpow:
  assumes "playlist s \<noteq> []" "repeat_mode s \<noteq> 1"
  shows "(prev_cursor ^^ k) s =
         (if k = 0 then s
          else s\<lparr>current_index := (current_index s - int k) mod int (length (playlist s))\<rparr>)"
proof (induction k)
  case 0
  show ?case by simp
next
  case (Suc k)
  show ?case
  proof (cases "k = 0")
    case True
    with assms show ?thesis by (simp add: prev_cursor_def get_prev_index_def)
  next
    case False
    with Suc assms show ?thesis
      by (simp add: prev_cursor_def get_prev_index_def mod_simps algebra_simps)
  qed
qed

section \<open>Claims about the cursor\<close>

text \<open>
  Claim C7. On an empty playlist \<^verbatim>\<open>get_next_index\<close> and \<^verbatim>\<open>get_prev_index\<close> return -1.
  On a non-empty playlist with repeat off and a cursor inside the list, they return the
  cursor plus or minus one modulo the length (from index 0 backwards to the last index),
  and the cursor update of \<^verbatim>\<open>next_track\<close>, or of \<^verbatim>\<open>prev_track\<close>, applied as many
  times as the playlist is long, leads back to the state it started from.
\<close>

theorem index_wraparound:
  "(playlist s = [] \<longrightarrow> get_next_index s = -1 \<and> get_prev_index s = -1) \<and>
   (playlist s \<noteq> [] \<and> repeat_mode s = 0 \<and>
    0 \<le> current_index s \<and> current_index s < int (length (playlist s)) \<longrightarrow>
      get_next_index s = (current_index s + 1) mod int (length (playlist s)) \<and>
      get_prev_index s = (current_index s - 1) mod int (length (playlist s)) \<and>
      (current_index s = 0 \<longrightarrow> get_prev_index s = int (length (playlist s)) - 1) \<and>
      (next_cursor ^^ length (playlist s)) s = s \<and>
      (prev_cursor ^^ length (playlist s)) s = s)"
proof (intro conjI impI)
  assume "playlist s = []"
  then show "get_next_index s = -1" "get_prev_index s = -1"
    by (simp_all add: get_next_index_def get_prev_index_def)
next
  assume h: "playlist s \<noteq> [] \<and> repeat_mode s = 0 \<and>
    0 \<le> current_index s \<and> current_index s < int (length (playlist s))"
  then show "get_next_index s = (current_index s + 1) mod int (length (playlist s))"
    and p: "get_prev_index s = (current_index s - 1) mod int (length (playlist s))"
    by (simp_all add: get_next_index_def get_prev_index_def)
  from h have n: "length (playlist s) \<noteq> 0" "repeat_mode s \<noteq> 1" "playlist s \<noteq> []" by simp_all
  from h have m: "current_index s mod int (length (playlist s)) = current_index s" by simp
  { assume "current_index s = 0"
    with p h show "get_prev_index s = int (length (playlist s)) - 1"
      by (simp add: zmod_minus1) }
  show "(next_cursor ^^ length (playlist s)) s = s"
    using n m by (simp add: next_cursor_funpow)
  show "(prev_cursor ^^ length (playlist s)) s = s"
    using n m by (simp add: prev_cursor_funpow)
qed

theorem index_wraparound_witness:
  "get_next_index init_playlist_manager = -1 \<and> get_prev_index init_playlist_manager = -1 \<and>
   get_next_index \<lparr>playlist = [''a.mp3'', ''b.ogg'', ''c.wav''], original_order = [''a.mp3'', ''b.ogg'', ''c.wav''],
      current_index = 0, repeat_mode = 0, shuffle_mode = False\<rparr> = 1 \<and>
   get_prev_index \<lparr>playlist = [''a.mp3'', ''b.ogg'', ''c.wav''], original_order = [''a.mp3'', ''b.ogg'', ''c.wav''],
      current_index = 0, repeat_mode = 0, shuffle_mode = False\<rparr> = 2 \<and>
   (next_cursor ^^ 3) \<lparr>playlist = [''a.mp3'', ''b.ogg'', ''c.wav''], original_order = [''a.mp3'', ''b.ogg'', ''c.wav''],
      current_index = 0, repeat_mode = 0, shuffle_mode = False\<rparr> =
     \<lparr>playlist = [''a.mp3'', ''b.ogg'', ''c.wav''], original_order = [''a.mp3'', ''b.ogg'', ''c.wav''],
      current_index = 0, repeat_mode = 0, shuffle_mode = False\<rparr>"
  using index_wraparound [of init_playlist_manager]
    index_wraparound [of "\<lparr>playlist = [''a.mp3'', ''b.ogg'', ''c.wav''], original_order = [''a.mp3'', ''b.ogg'', ''c.wav''],
      current_index = 0, repeat_mode = 0, shuffle_mode = False\<rparr>"]
  by (simp add: init_playlist_manager_def eval_nat_numeral)

text \<open>
  Claim C10. On a non-empty playlist with repeat off and no track selected (cursor -1),
  \<^verbatim>\<open>get_next_index\<close> returns 0, and \<^verbatim>\<open>get_prev_index\<close> returns the length minus
  two modulo the length: the second-to-last index when there are at least two tracks.
\<close>

theorem unselected_cursor_moves:
  "playlist s \<noteq> [] \<and> repeat_mode s = 0 \<and> current_index s = -1 \<longrightarrow>
     get_next_index s = 0 \<and>
     get_prev_index s = (int (length (playlist s)) - 2) mod int (length (playlist s)) \<and>
     (2 \<le> length (playlist s) \<longrightarrow> get_prev_index s = int (length (playlist s)) - 2)"
proof (intro impI)
  assume h: "playlist s \<noteq> [] \<and> repeat_mode s = 0 \<and> current_index s = -1"
  let ?n = "int (length (playlist s))"
  have e: "(- 2) mod ?n = (?n - 2) mod ?n"
    by (metis add.commute minus_mod_self2 uminus_add_conv_diff mod_add_self1 diff_conv_add_uminus)
  from h have "get_prev_index s = (- 2) mod ?n"
    by (simp add: get_prev_index_def)
  with e have p: "get_prev_index s = (?n - 2) mod ?n" by (simp only:)
  from h have nx: "get_next_index s = 0" by (simp add: get_next_index_def)
  have "get_prev_index s = ?n - 2" if "2 \<le> length (playlist s)"
  proof -
    from that have "(?n - 2) mod ?n = ?n - 2" by (intro mod_pos_pos_trivial) simp_all
    with p show ?thesis by (simp only:)
  qed
  with nx p show "get_next_index s = 0 \<and>
     get_prev_index s = (?n - 2) mod ?n \<and>
     (2 \<le> length (playlist s) \<longrightarrow> get_prev_index s = ?n - 2)" by blast
qed

theorem unselected_cursor_moves_witness:
  "get_next_index \<lparr>playlist = [''a.mp3'', ''b.ogg'', ''c.wav''], original_order = [''a.mp3'', ''b.ogg'', ''c.wav''],
      current_index = -1, repeat_mode = 0, shuffle_mode = False\<rparr> = 0 \<and>
   get_prev_index \<lparr>playlist = [''a.mp3'', ''b.ogg'', ''c.wav''], original_order = [''a.mp3'', ''b.ogg'', ''c.wav''],
      current_index = -1, repeat_mode = 0, shuffle_mode = False\<rparr> = 1"
  using unselected_cursor_moves [of "\<lparr>playlist = [''a.mp3'', ''b.ogg'', ''c.wav''], original_order = [''a.mp3'', ''b.ogg'', ''c.wav''],
      current_index = -1, repeat_mode = 0, shuffle_mode = False\<rparr>"]
  by simp

section \<open>Claims about the playback clock\<close>

text \<open>
  Claim C2. \<^verbatim>\<open>_elapsed_time\<close> returns 0 when the phase is Stopped; when Paused it
  returns the maximum of 0 and \<open>(last_pause - start_time) - pause_accum\<close>, which does not
  depend on the current time; when Playing it returns the maximum of 0 and
  \<open>(now - start_time) - pause_accum\<close>.
\<close>

theorem elapsed_time_by_phase:
  "elapsed_time now ps =
     (case phase_of ps of
        Stopped \<Rightarrow> 0
      | Paused \<Rightarrow> max 0 ((last_pause ps - start_time ps) - pause_accum ps)
      | Playing \<Rightarrow> max 0 ((now - start_time ps) - pause_accum ps)) \<and>
   (phase_of ps = Paused \<longrightarrow> elapsed_time now' ps = elapsed_time now ps)"
  by (simp add: elapsed_time_def phase_of_def)

theorem elapsed_time_by_phase_witness:
  "phase_of (playback_state paused_player) = Paused \<and>
   elapsed_time 110 (playback_state paused_player) = 3 \<and>
   elapsed_time 250 (playback_state paused_player) = elapsed_time 110 (playback_state paused_player)"
  using elapsed_time_by_phase [of 110 "playback_state paused_player" 250]
  by (simp add: paused_player_def phase_of_def)

text \<open>
  Claim C3, as stated, fails: the seek reads the clock twice, first for \<^verbatim>\<open>start_time\<close>
  and then for \<^verbatim>\<open>last_pause\<close>, so after a seek while paused the elapsed time is the
  offset plus the time between the two reads. With the scale at 42500 milliseconds and
  the clock at 200 and then at 200.25, the elapsed time is 42.75 and not 42.5 (every
  operation of this example is exact on doubles too).
\<close>

theorem seek_paused_elapsed_not_offset:
  "phase_of (playback_state paused_player) = Paused \<and>
   0 < track_length (playback_state paused_player) \<and>
   real_of_int (py_int 42500) / 1000 = 85 / 2 \<and>
   start_time (playback_state (seek_end working_backend 42500 200 (801 / 4) paused_player)) =
     200 - 85 / 2 \<and>
   last_pause (playback_state (seek_end working_backend 42500 200 (801 / 4) paused_player)) =
     801 / 4 \<and>
   phase_of (playback_state (seek_end working_backend 42500 200 (801 / 4) paused_player)) = Paused \<and>
   elapsed_time 300 (playback_state (seek_end working_backend 42500 200 (801 / 4) paused_player)) =
     171 / 4 \<and>
   elapsed_time 300 (playback_state (seek_end working_backend 42500 200 (801 / 4) paused_player)) \<noteq>
     real_of_int (py_int 42500) / 1000"
  by (simp add: paused_player_def working_backend_def phase_of_def py_int_def seek_end_def
      elapsed_time_def Let_def)

text \<open>
  Claim C3, amended. When the phase is not Stopped and the track length is positive, a
  seek to the offset \<open>S\<close> (the position of the scale in whole milliseconds, divided by
  1000) sets \<open>start_time\<close> to the first clock value minus \<open>S\<close>, \<open>pause_accum\<close> to 0 and
  \<open>last_pause\<close> to the second clock value if the player was paused and to 0 otherwise; it
  keeps the phase and the track length, and restarts the mixer at \<open>S\<close>, pausing it again
  if the player was paused, unless the mixer raises. The elapsed time afterwards is the
  expression of \<^verbatim>\<open>_elapsed_time\<close> on these anchors, taken from the second clock value
  when Paused and from the clock of the call when Playing: it is \<open>S\<close> only up to the time
  between the clock reads and the rounding of the subtractions.
\<close>

theorem seek_end_anchors:
  assumes "phase_of (playback_state p) \<noteq> Stopped"
    and "track_length (playback_state p) > 0"
    and "S = real_of_int (py_int val) / 1000"
    and "ps' = playback_state (seek_end b val t1 t2 p)"
  shows "start_time ps' = t1 - S \<and> pause_accum ps' = 0 \<and>
         last_pause ps' = (if phase_of (playback_state p) = Paused then t2 else 0) \<and>
         phase_of ps' = phase_of (playback_state p) \<and>
         track_length ps' = track_length (playback_state p) \<and>
         elapsed_time now ps' =
           (if phase_of (playback_state p) = Paused
            then max 0 ((t2 - (t1 - S)) - 0)
            else max 0 ((now - (t1 - S)) - 0)) \<and>
         effects (seek_end b val t1 t2 p) =
           (if play_raises b S then effects p
            else if phase_of (playback_state p) = Paused
                 then effects p @ [MixerPlay S, MixerPause]
                 else effects p @ [MixerPlay S])"
proof -
  from assms(1) have pl: "is_playing (playback_state p)"
    by (simp add: phase_of_def split: if_splits)
  show ?thesis
    unfolding assms(3) assms(4)
    using pl assms(2)
    by (cases "is_paused (playback_state p)")
      (simp_all add: seek_end_def phase_of_def elapsed_time_def Let_def emit_def)
qed

theorem seek_end_anchors_witness:
  "phase_of (playback_state paused_player) \<noteq> Stopped \<and>
   track_length (playback_state paused_player) > 0 \<and>
   start_time (playback_state (seek_end working_backend 42500 200 (801 / 4) paused_player)) =
     200 - 85 / 2 \<and>
   last_pause (playback_state (seek_end working_backend 42500 200 (801 / 4) paused_player)) =
     801 / 4 \<and>
   phase_of (playback_state (seek_end working_backend 42500 200 (801 / 4) paused_player)) = Paused \<and>
   elapsed_time 300 (playback_state (seek_end working_backend 42500 200 (801 / 4) paused_player)) =
     max 0 ((801 / 4 - (200 - 85 / 2)) - 0) \<and>
   effects (seek_end working_backend 42500 200 (801 / 4) paused_player) =
     [MixerPlay (85 / 2), MixerPause]"
proof -
  have h: "phase_of (playback_state paused_player) \<noteq> Stopped"
    "track_length (playback_state paused_player) > 0"
    "(85 / 2 :: real) = real_of_int (py_int 42500) / 1000"
    by (simp_all add: paused_player_def phase_of_def py_int_def)
  have pa: "phase_of (playback_state paused_player) = Paused"
    by (simp add: paused_player_def phase_of_def)
  have pr: "\<not> play_raises working_backend (85 / 2)" "effects paused_player = []"
    by (simp_all add: working_backend_def paused_player_def)
  from seek_end_anchors [OF h refl, of working_backend 200 "801 / 4" 300] pa pr h(1,2)
  show ?thesis by simp
qed



text \<open>
  Claim C1, as stated, fails: a load that raises leaves the playback state as it was, so
  a player that was Playing is still Playing afterwards and its clock is not reset.
\<close>

theorem load_failure_keeps_playing:
  "load_raises failing_backend (playlist (playlist_manager playing_player) ! nat 1) \<and>
   phase_of (playback_state playing_player) = Playing \<and>
   phase_of (playback_state (load_and_play failing_backend 105 1 playing_player)) = Playing \<and>
   playback_state (load_and_play failing_backend 105 1 playing_player) \<noteq> reset \<and>
   phase_of (playback_state (next_track failing_backend 105 playing_player)) = Playing"
  by (simp add: failing_backend_def playing_player_def two_tracks_def phase_of_def
      load_and_play_def next_track_def get_next_index_def emit_def reset_def Let_def)

text \<open>
  Claim C1, amended. When the load of the track at an index of the playlist raises,
  \<^verbatim>\<open>load_and_play\<close> shows the load error, starts nothing on the mixer, and leaves the
  playback state and the playlist manager exactly as they were: a clock that was Stopped
  stays Stopped, and the cursor is not moved. Through \<^verbatim>\<open>next_track\<close> the cursor is left
  on the track that failed to load.
\<close>

theorem load_failure_leaves_state:
  "(0 \<le> index \<and> index < int (length (playlist (playlist_manager p))) \<and>
    load_raises b (playlist (playlist_manager p) ! nat index) \<longrightarrow>
      effects (load_and_play b now index p) =
        effects p @ [UpdateCover (playlist (playlist_manager p) ! nat index),
                     ShowLoadError (playlist (playlist_manager p) ! nat index)] \<and>
      playback_state (load_and_play b now index p) = playback_state p \<and>
      (phase_of (playback_state p) = Stopped \<longrightarrow>
         phase_of (playback_state (load_and_play b now index p)) = Stopped) \<and>
      playlist_manager (load_and_play b now index p) = playlist_manager p) \<and>
   (playlist (playlist_manager p) \<noteq> [] \<and> repeat_mode (playlist_manager p) \<noteq> 1 \<and>
    load_raises b (playlist (playlist_manager p) ! nat (get_next_index (playlist_manager p))) \<longrightarrow>
      current_index (playlist_manager (next_track b now p)) = get_next_index (playlist_manager p) \<and>
      playback_state (next_track b now p) = playback_state p \<and>
      effects (next_track b now p) =
        effects p @ [UpdateCover (playlist (playlist_manager p) ! nat (get_next_index (playlist_manager p))),
                     ShowLoadError (playlist (playlist_manager p) ! nat (get_next_index (playlist_manager p)))])"
proof (intro conjI impI)
  assume h: "0 \<le> index \<and> index < int (length (playlist (playlist_manager p))) \<and>
    load_raises b (playlist (playlist_manager p) ! nat index)"
  then show "effects (load_and_play b now index p) =
        effects p @ [UpdateCover (playlist (playlist_manager p) ! nat index),
                     ShowLoadError (playlist (playlist_manager p) ! nat index)]"
    and ps: "playback_state (load_and_play b now index p) = playback_state p"
    and "playlist_manager (load_and_play b now index p) = playlist_manager p"
    by (simp_all add: load_and_play_def Let_def emit_def)
  { assume "phase_of (playback_state p) = Stopped"
    with ps show "phase_of (playback_state (load_and_play b now index p)) = Stopped" by simp }
next
  assume h: "playlist (playlist_manager p) \<noteq> [] \<and> repeat_mode (playlist_manager p) \<noteq> 1 \<and>
    load_raises b (playlist (playlist_manager p) ! nat (get_next_index (playlist_manager p)))"
  let ?i = "get_next_index (playlist_manager p)"
  from h have r: "0 \<le> ?i" "?i < int (length (playlist (playlist_manager p)))"
    by (simp_all add: get_next_index_def)
  with h show "current_index (playlist_manager (next_track b now p)) = ?i"
    and "playback_state (next_track b now p) = playback_state p"
    and "effects (next_track b now p) =
        effects p @ [UpdateCover (playlist (playlist_manager p) ! nat ?i),
                     ShowLoadError (playlist (playlist_manager p) ! nat ?i)]"
    by (simp_all add: next_track_def load_and_play_def Let_def emit_def)
qed

theorem load_failure_leaves_state_witness:
  "load_raises failing_backend (playlist (playlist_manager (stop playing_player)) ! nat 1) \<and>
   phase_of (playback_state (load_and_play failing_backend 105 1 (stop playing_player))) = Stopped \<and>
   playback_state (load_and_play failing_backend 105 1 (stop playing_player)) = reset \<and>
   effects (load_and_play failing_backend 105 1 (stop playing_player)) =
     [MixerStop, UpdateCover ''b.mp3'', ShowLoadError ''b.mp3''] \<and>
   current_index (playlist_manager (next_track failing_backend 105 (stop playing_player))) = 1"
  using load_failure_leaves_state [of 1 "stop playing_player" failing_backend 105]
  by (simp add: failing_backend_def playing_player_def two_tracks_def phase_of_def stop_def
      emit_def reset_def get_next_index_def)

section \<open>The invariant of the playlist manager\<close>

text \<open>
  The iterations of \<^verbatim>\<open>add_files\<close> and \<^verbatim>\<open>add_folder\<close> in closed form, the list
  operations, and the preservation of \<open>cursor_ok\<close> and \<open>snapshot_ok\<close> by every
  operation; \<^verbatim>\<open>toggle_shuffle\<close> does not raise where both hold.
\<close>

lemma fold_add_files_step:
  "fold (add_files_step supported) files s = s\<lparr>playlist := playlist s @ filter supported files\<rparr>"
  by (induction files arbitrary: s) (simp_all add: add_files_step_def)

lemma add_files_eq:
  "add_files supported files s =
     s\<lparr>playlist := playlist s @ filter supported files,
       original_order := playlist s @ filter supported files\<rparr>"
  by (simp add: add_files_def fold_add_files_step update_original_order_def)

lemma fold_add_folder_step:
  "fold (add_folder_step supported) entries (n, s) =
     (n + int (length (filter supported entries)),
      s\<lparr>playlist := playlist s @ filter supported entries\<rparr>)"
  by (induction entries arbitrary: n s) (simp_all add: add_folder_step_def)

lemma add_folder_eq:
  "add_folder supported entries s =
     (int (length (filter supported entries)),
      s\<lparr>playlist := playlist s @ filter supported entries,
        original_order := playlist s @ filter supported entries\<rparr>)"
  by (simp add: add_folder_def fold_add_folder_step update_original_order_def)

lemma length_delete_at: "i < length xs \<Longrightarrow> length (delete_at i xs) = length xs - 1"
  by (simp add: delete_at_def)

lemma mset_delete_at: "i < length xs \<Longrightarrow> add_mset (xs ! i) (mset (delete_at i xs)) = mset xs"
proof -
  assume i: "i < length xs"
  then have "xs = take i xs @ xs ! i # drop (Suc i) xs"
    by (simp add: id_take_nth_drop)
  then have "mset xs = mset (take i xs @ xs ! i # drop (Suc i) xs)" by simp
  then show ?thesis by (simp add: delete_at_def)
qed

lemma index_of_less: "x \<in> set xs \<Longrightarrow> index_of x xs < length xs"
  by (induction xs) auto

lemma nth_index_of: "x \<in> set xs \<Longrightarrow> xs ! index_of x xs = x"
  by (induction xs) auto

lemma index_of_nth: "distinct xs \<Longrightarrow> i < length xs \<Longrightarrow> index_of (xs ! i) xs = i"
proof (induction xs arbitrary: i)
  case Nil
  then show ?case by simp
next
  case (Cons y ys)
  show ?case
  proof (cases i)
    case 0
    then show ?thesis by simp
  next
    case (Suc j)
    with Cons.prems have "j < length ys" "ys ! j \<in> set ys" "y \<notin> set ys" by simp_all
    then have "ys ! j \<noteq> y" by auto
    with Suc Cons show ?thesis by simp
  qed
qed

lemma remove_items_step_fields:
  "original_order (remove_items_step k s) = original_order s"
  "repeat_mode (remove_items_step k s) = repeat_mode s"
  "shuffle_mode (remove_items_step k s) = shuffle_mode s"
  by (simp_all add: remove_items_step_def Let_def)

lemma remove_items_step_cursor_ok: "cursor_ok s \<Longrightarrow> cursor_ok (remove_items_step k s)"
  by (auto simp: cursor_ok_def remove_items_step_def Let_def length_delete_at)

lemma fold_remove_items_step_cursor_ok:
  "cursor_ok s \<Longrightarrow> cursor_ok (fold remove_items_step ks s)"
  by (induction ks arbitrary: s) (simp_all add: remove_items_step_cursor_ok)

lemma fold_remove_items_step_fields:
  "original_order (fold remove_items_step ks s) = original_order s"
  "repeat_mode (fold remove_items_step ks s) = repeat_mode s"
  "shuffle_mode (fold remove_items_step ks s) = shuffle_mode s"
  by (induction ks arbitrary: s) (simp_all add: remove_items_step_fields)

lemma remove_items_eq:
  assumes "cursor_ok s"
  shows "remove_items indices s =
         update_original_order (fold remove_items_step (rev (sort indices)) s)"
proof -
  let ?s1 = "fold remove_items_step (rev (sort indices)) s"
  from assms have "cursor_ok ?s1" by (rule fold_remove_items_step_cursor_ok)
  then have "\<not> (playlist ?s1 \<noteq> [] \<and> current_index ?s1 \<ge> int (length (playlist ?s1)))"
    by (auto simp: cursor_ok_def)
  then show ?thesis
    by (simp add: remove_items_def Let_def update_original_order_def)
qed

lemma apply_shuffle_ok:
  assumes c: "cursor_ok s" and sh: "is_shuffle shuf"
  shows "\<exists>s'. apply_shuffle shuf s = Inr s' \<and> cursor_ok s' \<and>
              mset (playlist s') = mset (playlist s) \<and>
              original_order s' = original_order s \<and>
              shuffle_mode s' = shuffle_mode s"
proof (cases "playlist s = []")
  case True
  with c show ?thesis by (simp add: apply_shuffle_def)
next
  case ne: False
  from sh have m: "mset (shuf xs) = mset xs" for xs by (simp add: is_shuffle_def)
  then have l: "length (shuf xs) = length xs" for xs by (metis size_mset)
  show ?thesis
  proof (cases "current_index s = -1")
    case True
    with ne c show ?thesis
      by (simp add: apply_shuffle_def current_track_def cursor_ok_def m l)
  next
    case False
    with c have r: "0 \<le> current_index s" "current_index s < int (length (playlist s))"
      by (simp_all add: cursor_ok_def)
    then have n: "nat (current_index s) < length (playlist s)" by simp
    show ?thesis
    proof (cases "playlist s ! nat (current_index s) = []")
      case True
      with ne r show ?thesis
        by (simp add: apply_shuffle_def current_track_def cursor_ok_def m l)
    next
      case False
      with ne r mset_delete_at [OF n] show ?thesis
        by (simp add: apply_shuffle_def current_track_def cursor_ok_def m)
    qed
  qed
qed

lemma restore_original_order_ok:
  assumes c: "cursor_ok s" and m: "mset (original_order s) = mset (playlist s)"
  shows "\<exists>s'. restore_original_order s = Inr s' \<and> cursor_ok s' \<and>
              playlist s' = original_order s \<and>
              original_order s' = original_order s \<and>
              shuffle_mode s' = shuffle_mode s"
proof (cases "original_order s = []")
  case True
  with m have "playlist s = []" by simp
  with True c show ?thesis by (simp add: restore_original_order_def)
next
  case ne: False
  from m have l: "length (original_order s) = length (playlist s)" by (metis size_mset)
  from m have st: "set (original_order s) = set (playlist s)" by (metis set_mset_mset)
  show ?thesis
  proof (cases "current_index s = -1")
    case True
    with ne show ?thesis
      by (simp add: restore_original_order_def current_track_def cursor_ok_def)
  next
    case False
    with c have r: "0 \<le> current_index s" "current_index s < int (length (playlist s))"
      by (simp_all add: cursor_ok_def)
    then have "playlist s ! nat (current_index s) \<in> set (original_order s)"
      by (simp add: st)
    with ne r l index_of_less [of "playlist s ! nat (current_index s)" "original_order s"]
    show ?thesis
      by (auto simp: restore_original_order_def current_track_def cursor_ok_def Let_def)
  qed
qed

lemma toggle_shuffle_ok:
  assumes "cursor_ok s" and "snapshot_ok s" and "is_shuffle shuf"
  shows "\<exists>s'. toggle_shuffle shuf s = Inr s' \<and> cursor_ok s' \<and> snapshot_ok s'"
proof (cases "shuffle_mode s")
  case True
  let ?s1 = "s\<lparr>shuffle_mode := False\<rparr>"
  from assms have "cursor_ok ?s1" "mset (original_order ?s1) = mset (playlist ?s1)"
    by (simp_all add: cursor_ok_def snapshot_ok_def)
  from restore_original_order_ok [OF this] True show ?thesis
    by (auto simp: toggle_shuffle_def snapshot_ok_def)
next
  case False
  let ?s1 = "s\<lparr>shuffle_mode := True\<rparr>"
  from assms have "cursor_ok ?s1" by (simp add: cursor_ok_def)
  from apply_shuffle_ok [OF this assms(3)] False assms(2) show ?thesis
    by (auto simp: toggle_shuffle_def snapshot_ok_def)
qed

lemma next_cursor_ok: "cursor_ok s \<Longrightarrow> cursor_ok (next_cursor s)"
  by (auto simp: cursor_ok_def next_cursor_def get_next_index_def)

lemma prev_cursor_ok: "cursor_ok s \<Longrightarrow> cursor_ok (prev_cursor s)"
  by (auto simp: cursor_ok_def prev_cursor_def get_prev_index_def)

lemma reachable_invariant: "reachable s \<Longrightarrow> cursor_ok s \<and> snapshot_ok s"
proof (induction rule: reachable.induct)
  case r_init
  show ?case by (simp add: init_playlist_manager_def cursor_ok_def snapshot_ok_def)
next
  case (r_add_files s supported files)
  then show ?case by (auto simp: add_files_eq cursor_ok_def snapshot_ok_def)
next
  case (r_add_folder s supported entries)
  then show ?case by (auto simp: add_folder_eq cursor_ok_def snapshot_ok_def)
next
  case (r_remove_items s indices)
  then have "cursor_ok (fold remove_items_step (rev (sort indices)) s)"
    by (simp add: fold_remove_items_step_cursor_ok)
  with r_remove_items show ?case
    by (simp add: remove_items_eq update_original_order_def cursor_ok_def snapshot_ok_def)
next
  case (r_clear s)
  show ?case by (simp add: clear_def cursor_ok_def snapshot_ok_def)
next
  case (r_toggle_shuffle s shuf s')
  with toggle_shuffle_ok [of s shuf] show ?case by auto
next
  case (r_next s)
  then show ?case by (simp add: next_cursor_ok) (simp add: snapshot_ok_def next_cursor_def)
next
  case (r_prev s)
  then show ?case by (simp add: prev_cursor_ok) (simp add: snapshot_ok_def prev_cursor_def)
next
  case (r_toggle_repeat s)
  then show ?case by (simp add: toggle_repeat_mode_def cursor_ok_def snapshot_ok_def)
next
  case (r_select s i)
  then show ?case by (simp add: cursor_ok_def snapshot_ok_def)
qed

section \<open>Claims about the playlist\<close>

text \<open>
  Claim C9. In every state the playlist manager reaches, \<^verbatim>\<open>current_index\<close> is -1 or an
  index of the playlist, and so it is again after \<^verbatim>\<open>add_files\<close>, \<^verbatim>\<open>add_folder\<close>,
  \<^verbatim>\<open>remove_items\<close>, \<^verbatim>\<open>clear\<close>, \<^verbatim>\<open>toggle_shuffle\<close> (which does not raise there) and
  the cursor updates of \<^verbatim>\<open>next_track\<close> and \<^verbatim>\<open>prev_track\<close>.
\<close>

theorem cursor_in_range:
  assumes "reachable s"
  shows "(current_index s = -1 \<or>
          (0 \<le> current_index s \<and> current_index s < int (length (playlist s)))) \<and>
         cursor_ok (add_files supported files s) \<and>
         cursor_ok (snd (add_folder supported entries s)) \<and>
         cursor_ok (remove_items indices s) \<and>
         cursor_ok (clear s) \<and>
         (is_shuffle shuf \<longrightarrow> (\<exists>s'. toggle_shuffle shuf s = Inr s' \<and> cursor_ok s')) \<and>
         cursor_ok (next_cursor s) \<and>
         cursor_ok (prev_cursor s) \<and>
         cursor_ok (playlist_manager (next_track b now (p\<lparr>playlist_manager := s\<rparr>))) \<and>
         cursor_ok (playlist_manager (prev_track b now (p\<lparr>playlist_manager := s\<rparr>)))"
proof -
  have pm: "playlist_manager (load_and_play b t i q) = playlist_manager q" for t i q
    by (simp add: load_and_play_def Let_def emit_def)
  have nt: "playlist_manager (next_track b now (p\<lparr>playlist_manager := s\<rparr>)) = next_cursor s"
    by (simp add: next_track_def next_cursor_def Let_def pm)
  have pt: "playlist_manager (prev_track b now (p\<lparr>playlist_manager := s\<rparr>)) = prev_cursor s"
    by (simp add: prev_track_def prev_cursor_def Let_def pm)
  from assms have i: "cursor_ok s" "snapshot_ok s"
    using reachable_invariant by blast+
  have ts: "\<exists>s'. toggle_shuffle shuf s = Inr s' \<and> cursor_ok s'" if "is_shuffle shuf"
    using toggle_shuffle_ok [OF i that] by blast
  have "cursor_ok (add_files supported files s)"
    using assms reachable_invariant r_add_files by blast
  moreover have "cursor_ok (snd (add_folder supported entries s))"
    using assms reachable_invariant r_add_folder by blast
  moreover have "cursor_ok (remove_items indices s)"
    using assms reachable_invariant r_remove_items by blast
  moreover have "cursor_ok (clear s)"
    using assms reachable_invariant r_clear by blast
  moreover have "cursor_ok (next_cursor s)" "cursor_ok (prev_cursor s)"
    using i by (simp_all add: next_cursor_ok prev_cursor_ok)
  ultimately show ?thesis using i(1) ts nt pt
    by (simp add: cursor_ok_def)
qed

theorem cursor_in_range_witness:
  "reachable (two_tracks\<lparr>current_index := -1\<rparr>) \<and> is_shuffle rev \<and>
   current_index (two_tracks\<lparr>current_index := -1\<rparr>) = -1 \<and>
   (\<exists>s'. toggle_shuffle rev (two_tracks\<lparr>current_index := -1\<rparr>) = Inr s' \<and> cursor_ok s') \<and>
   cursor_ok (remove_items [0] (two_tracks\<lparr>current_index := -1\<rparr>)) \<and>
   cursor_ok (next_cursor (two_tracks\<lparr>current_index := -1\<rparr>)) \<and>
   current_index (next_cursor (two_tracks\<lparr>current_index := -1\<rparr>)) = 0"
proof -
  have "reachable (add_files (\<lambda>f. True) [''a.mp3'', ''b.mp3''] init_playlist_manager)"
    by (rule r_add_files) (rule r_init)
  moreover have "add_files (\<lambda>f. True) [''a.mp3'', ''b.mp3''] init_playlist_manager =
      two_tracks\<lparr>current_index := -1\<rparr>"
    by (simp add: add_files_eq init_playlist_manager_def two_tracks_def)
  ultimately have r: "reachable (two_tracks\<lparr>current_index := -1\<rparr>)" by simp
  have sh: "is_shuffle rev" by (simp add: is_shuffle_def)
  from cursor_in_range [OF r, of "\<lambda>f. True" "[]" "[]" "[0]" rev] sh
  have "\<exists>s'. toggle_shuffle rev (two_tracks\<lparr>current_index := -1\<rparr>) = Inr s' \<and> cursor_ok s'"
    and "cursor_ok (remove_items [0] (two_tracks\<lparr>current_index := -1\<rparr>))"
    and "cursor_ok (next_cursor (two_tracks\<lparr>current_index := -1\<rparr>))"
    by blast+
  with r sh show ?thesis
    by (simp add: two_tracks_def next_cursor_def get_next_index_def)
qed

text \<open>
  Claim C8, as stated, fails: \<^verbatim>\<open>add_files\<close>, \<^verbatim>\<open>add_folder\<close> and \<^verbatim>\<open>remove_items\<close>
  take the snapshot whether or not the playlist is shuffled. After entering shuffle on
  four tracks and adding a fifth, \<^verbatim>\<open>original_order\<close> is the shuffled order with the new
  track appended, not the order before the shuffle, and leaving shuffle keeps the
  shuffled order.
\<close>

theorem snapshot_taken_while_shuffled:
  "reachable shuffled_four_tracks \<and> shuffle_mode shuffled_four_tracks \<and>
   original_order shuffled_four_tracks = [''A.mp3'', ''B.mp3'', ''C.mp3'', ''D.mp3''] \<and>
   reachable (add_files all_supported [''E.mp3''] shuffled_four_tracks) \<and>
   shuffle_mode (add_files all_supported [''E.mp3''] shuffled_four_tracks) \<and>
   original_order (add_files all_supported [''E.mp3''] shuffled_four_tracks) =
     [''C.mp3'', ''D.mp3'', ''B.mp3'', ''A.mp3'', ''E.mp3''] \<and>
   original_order (add_files all_supported [''E.mp3''] shuffled_four_tracks) \<noteq>
     [''A.mp3'', ''B.mp3'', ''C.mp3'', ''D.mp3'', ''E.mp3''] \<and>
   toggle_shuffle rev (add_files all_supported [''E.mp3''] shuffled_four_tracks) =
     Inr \<lparr>playlist = [''C.mp3'', ''D.mp3'', ''B.mp3'', ''A.mp3'', ''E.mp3''],
          original_order = [''C.mp3'', ''D.mp3'', ''B.mp3'', ''A.mp3'', ''E.mp3''],
          current_index = 0, repeat_mode = 0, shuffle_mode = False\<rparr>"
proof -
  let ?added = "add_files all_supported [''A.mp3'', ''B.mp3'', ''C.mp3'', ''D.mp3'']
                  init_playlist_manager"
  have "reachable ?added" by (rule r_add_files) (rule r_init)
  then have "reachable (?added\<lparr>current_index := 2\<rparr>)"
    by (rule r_select) (simp_all add: add_files_eq init_playlist_manager_def all_supported_def)
  moreover have "?added\<lparr>current_index := 2\<rparr> = four_tracks"
    by (simp add: add_files_eq init_playlist_manager_def four_tracks_def all_supported_def)
  ultimately have r: "reachable four_tracks" by simp
  have sh: "is_shuffle rev" by (simp add: is_shuffle_def)
  have one: "toggle_shuffle rev four_tracks = Inr shuffled_four_tracks"
    by (simp add: four_tracks_def shuffled_four_tracks_def toggle_shuffle_def apply_shuffle_def
        current_track_def delete_at_def)
  have r1: "reachable shuffled_four_tracks" by (rule r_toggle_shuffle [OF r sh one])
  then have r2: "reachable (add_files all_supported [''E.mp3''] shuffled_four_tracks)"
    by (rule r_add_files)
  have e: "add_files all_supported [''E.mp3''] shuffled_four_tracks =
      \<lparr>playlist = [''C.mp3'', ''D.mp3'', ''B.mp3'', ''A.mp3'', ''E.mp3''],
       original_order = [''C.mp3'', ''D.mp3'', ''B.mp3'', ''A.mp3'', ''E.mp3''],
       current_index = 0, repeat_mode = 0, shuffle_mode = True\<rparr>"
    by (simp add: add_files_eq shuffled_four_tracks_def all_supported_def)
  have two: "toggle_shuffle rev (add_files all_supported [''E.mp3''] shuffled_four_tracks) =
     Inr \<lparr>playlist = [''C.mp3'', ''D.mp3'', ''B.mp3'', ''A.mp3'', ''E.mp3''],
          original_order = [''C.mp3'', ''D.mp3'', ''B.mp3'', ''A.mp3'', ''E.mp3''],
          current_index = 0, repeat_mode = 0, shuffle_mode = False\<rparr>"
    unfolding e by (simp add: toggle_shuffle_def restore_original_order_def current_track_def)
  have o: "original_order shuffled_four_tracks = [''A.mp3'', ''B.mp3'', ''C.mp3'', ''D.mp3'']"
    "shuffle_mode shuffled_four_tracks"
    by (simp_all add: shuffled_four_tracks_def)
  have o2: "shuffle_mode (add_files all_supported [''E.mp3''] shuffled_four_tracks)"
    "original_order (add_files all_supported [''E.mp3''] shuffled_four_tracks) =
     [''C.mp3'', ''D.mp3'', ''B.mp3'', ''A.mp3'', ''E.mp3'']"
    "original_order (add_files all_supported [''E.mp3''] shuffled_four_tracks) \<noteq>
     [''A.mp3'', ''B.mp3'', ''C.mp3'', ''D.mp3'', ''E.mp3'']"
    unfolding e by simp_all
  from r1 r2 o o2 two show ?thesis by blast
qed

text \<open>\<^verbatim>\<open>toggle_shuffle\<close> never assigns \<^verbatim>\<open>original_order\<close>.\<close>

lemma toggle_shuffle_original_order:
  "toggle_shuffle shuf s = Inr s' \<Longrightarrow> original_order s' = original_order s"
  by (auto simp: toggle_shuffle_def apply_shuffle_def restore_original_order_def Let_def
      split: if_splits sum.splits option.splits)

text \<open>
  Claim C8, amended. In every state the playlist manager reaches, \<^verbatim>\<open>original_order\<close>
  has the same entries as \<^verbatim>\<open>playlist\<close>, each as often, and is the playlist itself while
  shuffle is off. \<^verbatim>\<open>add_files\<close>, \<^verbatim>\<open>add_folder\<close> and \<^verbatim>\<open>remove_items\<close> leave
  \<^verbatim>\<open>original_order\<close> equal to the playlist they produce, in every state, shuffled or
  not (\<^verbatim>\<open>clear\<close> empties both); \<^verbatim>\<open>toggle_shuffle\<close> and the cursor updates leave
  \<^verbatim>\<open>original_order\<close> as it is: entering shuffle keeps the order the playlist had, and
  leaving shuffle makes the playlist equal to \<^verbatim>\<open>original_order\<close>.
\<close>

theorem original_order_snapshot:
  "(reachable s \<longrightarrow>
      mset (original_order s) = mset (playlist s) \<and>
      (\<not> shuffle_mode s \<longrightarrow> original_order s = playlist s)) \<and>
   original_order (add_files supported files s) = playlist (add_files supported files s) \<and>
   playlist (add_files supported files s) = playlist s @ filter supported files \<and>
   original_order (snd (add_folder supported entries s)) =
     playlist (snd (add_folder supported entries s)) \<and>
   playlist (snd (add_folder supported entries s)) = playlist s @ filter supported entries \<and>
   original_order (remove_items indices s) = playlist (remove_items indices s) \<and>
   original_order (clear s) = playlist (clear s) \<and>
   (toggle_shuffle shuf s = Inr s' \<longrightarrow> original_order s' = original_order s) \<and>
   (reachable s \<and> toggle_shuffle shuf s = Inr s' \<longrightarrow>
      (if shuffle_mode s then playlist s' = original_order s
       else original_order s' = playlist s)) \<and>
   original_order (next_cursor s) = original_order s \<and>
   original_order (prev_cursor s) = original_order s"
proof -
  have inv: "mset (original_order s) = mset (playlist s) \<and>
      (\<not> shuffle_mode s \<longrightarrow> original_order s = playlist s)" if "reachable s"
    using reachable_invariant [OF that] by (simp add: snapshot_ok_def)
  have rm: "original_order (remove_items indices s) = playlist (remove_items indices s)"
    by (simp add: remove_items_def Let_def update_original_order_def)
  have keep: "original_order s' = original_order s" if "toggle_shuffle shuf s = Inr s'"
    using that by (rule toggle_shuffle_original_order)
  have tog: "if shuffle_mode s then playlist s' = original_order s
       else original_order s' = playlist s"
    if r: "reachable s" and t: "toggle_shuffle shuf s = Inr s'"
  proof (cases "shuffle_mode s")
    case True
    from r have "cursor_ok s" "snapshot_ok s" using reachable_invariant by blast+
    then have "cursor_ok (s\<lparr>shuffle_mode := False\<rparr>)"
      "mset (original_order (s\<lparr>shuffle_mode := False\<rparr>)) = mset (playlist (s\<lparr>shuffle_mode := False\<rparr>))"
      by (simp_all add: cursor_ok_def snapshot_ok_def)
    from restore_original_order_ok [OF this] t True show ?thesis
      by (auto simp: toggle_shuffle_def)
  next
    case False
    with inv [OF r] keep [OF t] show ?thesis by simp
  qed
  from inv rm keep tog show ?thesis
    by (simp add: add_files_eq add_folder_eq clear_def next_cursor_def prev_cursor_def)
qed

theorem original_order_snapshot_witness:
  "reachable (two_tracks\<lparr>current_index := -1\<rparr>) \<and>
   \<not> shuffle_mode (two_tracks\<lparr>current_index := -1\<rparr>) \<and>
   original_order (two_tracks\<lparr>current_index := -1\<rparr>) =
     playlist (two_tracks\<lparr>current_index := -1\<rparr>) \<and>
   toggle_shuffle rev (two_tracks\<lparr>current_index := -1\<rparr>) =
     Inr (two_tracks\<lparr>current_index := -1, shuffle_mode := True,
            playlist := [''b.mp3'', ''a.mp3'']\<rparr>) \<and>
   reachable (two_tracks\<lparr>current_index := -1, shuffle_mode := True,
      playlist := [''b.mp3'', ''a.mp3'']\<rparr>) \<and>
   original_order (two_tracks\<lparr>current_index := -1, shuffle_mode := True,
      playlist := [''b.mp3'', ''a.mp3'']\<rparr>) = [''a.mp3'', ''b.mp3''] \<and>
   mset (original_order (two_tracks\<lparr>current_index := -1, shuffle_mode := True,
      playlist := [''b.mp3'', ''a.mp3'']\<rparr>)) = mset [''b.mp3'', ''a.mp3'']"
proof -
  let ?X = "two_tracks\<lparr>current_index := -1\<rparr>"
  let ?Y = "two_tracks\<lparr>current_index := -1, shuffle_mode := True,
      playlist := [''b.mp3'', ''a.mp3'']\<rparr>"
  have "reachable (add_files all_supported [''a.mp3'', ''b.mp3''] init_playlist_manager)"
    by (rule r_add_files) (rule r_init)
  moreover have "add_files all_supported [''a.mp3'', ''b.mp3''] init_playlist_manager = ?X"
    by (simp add: add_files_eq init_playlist_manager_def two_tracks_def all_supported_def)
  ultimately have r: "reachable ?X" by simp
  have sh: "is_shuffle rev" by (simp add: is_shuffle_def)
  have t: "toggle_shuffle rev ?X = Inr ?Y"
    by (simp add: two_tracks_def toggle_shuffle_def apply_shuffle_def current_track_def)
  have r2: "reachable ?Y" by (rule r_toggle_shuffle [OF r sh t])
  have f: "\<not> shuffle_mode ?X" by (simp add: two_tracks_def)
  from original_order_snapshot [where s = ?Y] r2
  have m: "mset (original_order ?Y) = mset (playlist ?Y)" by blast
  from original_order_snapshot [where s = ?X] r f
  have e: "original_order ?X = playlist ?X" by blast
  from original_order_snapshot [where s = ?X and shuf = rev and s' = ?Y] r t f
  have "original_order ?Y = playlist ?X" by simp
  then have o: "original_order ?Y = [''a.mp3'', ''b.mp3'']" by (simp add: two_tracks_def)
  from m have m': "mset (original_order ?Y) = mset [''b.mp3'', ''a.mp3'']" by simp
  from r r2 f e o m' t show ?thesis by blast
qed

text \<open>
  Two toggles from a state with shuffle off whose snapshot is the playlist: the first
  puts the current track in front, the second restores the snapshot and finds the track.
\<close>

lemma toggle_shuffle_twice:
  assumes off: "\<not> shuffle_mode s"
    and snap: "original_order s = playlist s"
    and cur: "cursor_ok s"
    and ne: "[] \<notin> set (playlist s)"
  shows "\<exists>s1 s2. toggle_shuffle shuf s = Inr s1 \<and> toggle_shuffle shuf' s1 = Inr s2 \<and>
           playlist s2 = playlist s \<and>
           (current_index s \<noteq> -1 \<longrightarrow>
              current_index s1 = 0 \<and>
              playlist s1 ! 0 = playlist s ! nat (current_index s) \<and>
              playlist s2 ! nat (current_index s2) = playlist s ! nat (current_index s)) \<and>
           (distinct (playlist s) \<longrightarrow> current_index s2 = current_index s \<and> s2 = s)"
proof (cases "playlist s = []")
  case True
  with cur have "current_index s = -1" by (auto simp: cursor_ok_def)
  with True off snap show ?thesis
    by (simp add: toggle_shuffle_def apply_shuffle_def restore_original_order_def)
next
  case nonempty: False
  show ?thesis
  proof (cases "current_index s = -1")
    case True
    with off snap nonempty show ?thesis
      by (simp add: toggle_shuffle_def apply_shuffle_def restore_original_order_def
          current_track_def)
  next
    case False
    with cur have r: "0 \<le> current_index s" "current_index s < int (length (playlist s))"
      by (simp_all add: cursor_ok_def)
    let ?t = "playlist s ! nat (current_index s)"
    from r have mem: "?t \<in> set (playlist s)" by simp
    with ne have t: "?t \<noteq> []" by metis
    let ?s1 = "s\<lparr>shuffle_mode := True, current_index := 0,
                  playlist := ?t # shuf (delete_at (nat (current_index s)) (playlist s))\<rparr>"
    let ?s2 = "s\<lparr>shuffle_mode := False, current_index := int (index_of ?t (playlist s)),
                  playlist := playlist s\<rparr>"
    have one: "toggle_shuffle shuf s = Inr ?s1"
      using off nonempty r t
      by (simp add: toggle_shuffle_def apply_shuffle_def current_track_def)
    have two: "toggle_shuffle shuf' ?s1 = Inr ?s2"
      using snap nonempty mem t
      by (simp add: toggle_shuffle_def restore_original_order_def current_track_def)
    have same: "playlist ?s2 ! nat (current_index ?s2) = ?t"
      using mem by (simp add: nth_index_of)
    have dist: "current_index ?s2 = current_index s \<and> ?s2 = s" if "distinct (playlist s)"
    proof -
      from that r have "index_of ?t (playlist s) = nat (current_index s)"
        by (simp add: index_of_nth)
      with r off show ?thesis by simp
    qed
    from one two same dist False show ?thesis by auto
  qed
qed

text \<open>
  Claim C5. From a reachable state with shuffle off (the tracks are non-empty paths),
  \<^verbatim>\<open>toggle_shuffle\<close> called twice does not raise and restores the playlist to the exact
  sequence it had, whatever \<^verbatim>\<open>random.shuffle\<close> did; the first call puts the current
  track at index 0; and when the playlist has no duplicates, the cursor is back on the
  position it had and the whole state is the one before the first call.
\<close>

theorem shuffle_round_trip:
  assumes "reachable s" and "\<not> shuffle_mode s" and "[] \<notin> set (playlist s)"
  shows "\<exists>s1 s2. toggle_shuffle shuf s = Inr s1 \<and> toggle_shuffle shuf' s1 = Inr s2 \<and>
           playlist s2 = playlist s \<and>
           (current_index s \<noteq> -1 \<longrightarrow>
              current_index s1 = 0 \<and>
              playlist s1 ! 0 = playlist s ! nat (current_index s) \<and>
              playlist s2 ! nat (current_index s2) = playlist s ! nat (current_index s)) \<and>
           (distinct (playlist s) \<longrightarrow> current_index s2 = current_index s \<and> s2 = s)"
proof -
  from assms(1) have "cursor_ok s" "snapshot_ok s"
    using reachable_invariant by blast+
  with assms(2) have "original_order s = playlist s" "cursor_ok s"
    by (simp_all add: snapshot_ok_def)
  from toggle_shuffle_twice [OF assms(2) this assms(3)] show ?thesis .
qed

theorem shuffle_round_trip_witness:
  "reachable four_tracks \<and> \<not> shuffle_mode four_tracks \<and>
   [] \<notin> set (playlist four_tracks) \<and> distinct (playlist four_tracks) \<and>
   toggle_shuffle rev four_tracks =
     Inr (four_tracks\<lparr>shuffle_mode := True, current_index := 0,
            playlist := [''C.mp3'', ''D.mp3'', ''B.mp3'', ''A.mp3'']\<rparr>) \<and>
   toggle_shuffle rev
     (four_tracks\<lparr>shuffle_mode := True, current_index := 0,
            playlist := [''C.mp3'', ''D.mp3'', ''B.mp3'', ''A.mp3'']\<rparr>) = Inr four_tracks"
proof -
  let ?added = "add_files (\<lambda>f. True) [''A.mp3'', ''B.mp3'', ''C.mp3'', ''D.mp3'']
                  init_playlist_manager"
  have "reachable ?added" by (rule r_add_files) (rule r_init)
  then have "reachable (?added\<lparr>current_index := 2\<rparr>)"
    by (rule r_select) (simp_all add: add_files_eq init_playlist_manager_def)
  moreover have "?added\<lparr>current_index := 2\<rparr> = four_tracks"
    by (simp add: add_files_eq init_playlist_manager_def four_tracks_def)
  ultimately have r: "reachable four_tracks" by simp
  have h: "\<not> shuffle_mode four_tracks" "[] \<notin> set (playlist four_tracks)"
    by (simp_all add: four_tracks_def)
  have d: "distinct (playlist four_tracks)" by (simp add: four_tracks_def)
  have one: "toggle_shuffle rev four_tracks =
     Inr (four_tracks\<lparr>shuffle_mode := True, current_index := 0,
            playlist := [''C.mp3'', ''D.mp3'', ''B.mp3'', ''A.mp3'']\<rparr>)"
    by (simp add: four_tracks_def toggle_shuffle_def apply_shuffle_def current_track_def
        delete_at_def)
  from shuffle_round_trip [OF r h, of rev rev] d one
  have "toggle_shuffle rev
     (four_tracks\<lparr>shuffle_mode := True, current_index := 0,
            playlist := [''C.mp3'', ''D.mp3'', ''B.mp3'', ''A.mp3'']\<rparr>) = Inr four_tracks"
    by auto
  with r h d one show ?thesis by simp
qed

text \<open>
  Removing several indices is removing them one by one, from the highest to the lowest.
\<close>

lemma update_original_order_step:
  "update_original_order (remove_items_step k (update_original_order s)) =
   update_original_order (remove_items_step k s)"
  by (simp add: update_original_order_def remove_items_step_def Let_def)

lemma remove_items_single:
  "cursor_ok s \<Longrightarrow> remove_items [k] s = update_original_order (remove_items_step k s)"
  by (simp add: remove_items_eq)

lemma cursor_ok_update_original_order:
  "cursor_ok (update_original_order s) = cursor_ok s"
  by (simp add: cursor_ok_def update_original_order_def)

lemma fold_remove_items_single:
  "cursor_ok s \<Longrightarrow>
   fold (\<lambda>k. remove_items [k]) ks (update_original_order s) =
   update_original_order (fold remove_items_step ks s)"
proof (induction ks arbitrary: s)
  case Nil
  show ?case by simp
next
  case (Cons k ks)
  from Cons.prems have "cursor_ok (remove_items_step k s)"
    by (rule remove_items_step_cursor_ok)
  from Cons.IH [OF this] Cons.prems show ?case
    by (simp add: remove_items_single cursor_ok_update_original_order
        update_original_order_step)
qed

text \<open>
  Claim C6. On a state whose cursor is -1 or in the list, \<^verbatim>\<open>remove_items\<close> is the
  removal of its indices one at a time in descending order; an index out of range
  changes neither the playlist nor the cursor; removing an index in range deletes that
  entry and sets the cursor to -1 if it was the cursor, lowers it by one if it was below
  the cursor, and leaves it if it was above; when the playlist ends up empty the cursor
  is -1. For every state, the body of the iteration does exactly that for one index, and
  the result of \<^verbatim>\<open>remove_items\<close> is the state after the iteration over the indices in
  descending order, with \<^verbatim>\<open>original_order\<close> set to its playlist and the cursor set to
  the last index exactly when that playlist is not empty and the cursor is at or beyond
  its length.
\<close>

theorem remove_items_reindexing:
  "(cursor_ok s \<longrightarrow>
      remove_items indices s =
        fold (\<lambda>k. remove_items [k]) (rev (sort indices)) (update_original_order s) \<and>
      cursor_ok (remove_items indices s) \<and>
      (playlist (remove_items indices s) = [] \<longrightarrow> current_index (remove_items indices s) = -1)) \<and>
   (cursor_ok s \<and> \<not> (0 \<le> k \<and> k < int (length (playlist s))) \<longrightarrow>
      playlist (remove_items [k] s) = playlist s \<and>
      current_index (remove_items [k] s) = current_index s) \<and>
   (cursor_ok s \<and> 0 \<le> k \<and> k < int (length (playlist s)) \<longrightarrow>
      playlist (remove_items [k] s) = delete_at (nat k) (playlist s) \<and>
      current_index (remove_items [k] s) =
        (if k = current_index s then -1
         else if k < current_index s then current_index s - 1
         else current_index s)) \<and>
   (playlist (remove_items indices s) \<noteq> [] \<longrightarrow>
      current_index (remove_items indices s) \<le> int (length (playlist (remove_items indices s))) - 1) \<and>
   remove_items_step k s =
     (if 0 \<le> k \<and> k < int (length (playlist s))
      then s\<lparr>playlist := delete_at (nat k) (playlist s),
             current_index :=
               (if k = current_index s then -1
                else if k < current_index s then current_index s - 1
                else current_index s)\<rparr>
      else s) \<and>
   playlist (remove_items indices s) =
     playlist (fold remove_items_step (rev (sort indices)) s) \<and>
   original_order (remove_items indices s) =
     playlist (fold remove_items_step (rev (sort indices)) s) \<and>
   current_index (remove_items indices s) =
     (if playlist (fold remove_items_step (rev (sort indices)) s) \<noteq> [] \<and>
         int (length (playlist (fold remove_items_step (rev (sort indices)) s))) \<le>
           current_index (fold remove_items_step (rev (sort indices)) s)
      then int (length (playlist (fold remove_items_step (rev (sort indices)) s))) - 1
      else current_index (fold remove_items_step (rev (sort indices)) s))"
proof (intro conjI impI)
  assume c: "cursor_ok s"
  show "remove_items indices s =
        fold (\<lambda>k. remove_items [k]) (rev (sort indices)) (update_original_order s)"
    using c by (simp add: fold_remove_items_single remove_items_eq)
  from c have "cursor_ok (fold remove_items_step (rev (sort indices)) s)"
    by (rule fold_remove_items_step_cursor_ok)
  with c show ok: "cursor_ok (remove_items indices s)"
    by (simp add: remove_items_eq cursor_ok_update_original_order)
  { assume "playlist (remove_items indices s) = []"
    with ok show "current_index (remove_items indices s) = -1"
      by (auto simp: cursor_ok_def) }
next
  assume "cursor_ok s \<and> \<not> (0 \<le> k \<and> k < int (length (playlist s)))"
  then show "playlist (remove_items [k] s) = playlist s"
    and "current_index (remove_items [k] s) = current_index s"
    by (auto simp: remove_items_single update_original_order_def remove_items_step_def)
next
  assume "cursor_ok s \<and> 0 \<le> k \<and> k < int (length (playlist s))"
  then show "playlist (remove_items [k] s) = delete_at (nat k) (playlist s)"
    and "current_index (remove_items [k] s) =
        (if k = current_index s then -1
         else if k < current_index s then current_index s - 1
         else current_index s)"
    by (simp_all add: remove_items_single update_original_order_def remove_items_step_def Let_def)
next
  assume "playlist (remove_items indices s) \<noteq> []"
  then show "current_index (remove_items indices s) \<le>
      int (length (playlist (remove_items indices s))) - 1"
    by (simp add: remove_items_def Let_def update_original_order_def split: if_splits)
next
  show "remove_items_step k s =
     (if 0 \<le> k \<and> k < int (length (playlist s))
      then s\<lparr>playlist := delete_at (nat k) (playlist s),
             current_index :=
               (if k = current_index s then -1
                else if k < current_index s then current_index s - 1
                else current_index s)\<rparr>
      else s)"
    by (simp add: remove_items_step_def Let_def)
next
  let ?r = "fold remove_items_step (rev (sort indices)) s"
  show "playlist (remove_items indices s) = playlist ?r"
    and "original_order (remove_items indices s) = playlist ?r"
    and "current_index (remove_items indices s) =
     (if playlist ?r \<noteq> [] \<and> int (length (playlist ?r)) \<le> current_index ?r
      then int (length (playlist ?r)) - 1
      else current_index ?r)"
    by (simp_all add: remove_items_def Let_def update_original_order_def)
qed

theorem remove_items_reindexing_witness:
  "cursor_ok three_tracks \<and>
   remove_items [0] three_tracks =
     three_tracks\<lparr>playlist := [''B.mp3'', ''C.mp3''], original_order := [''B.mp3'', ''C.mp3''],
       current_index := 0\<rparr> \<and>
   remove_items [7] three_tracks = three_tracks \<and>
   cursor_ok (remove_items [0, 2, 1] three_tracks) \<and>
   current_index (remove_items [0, 2, 1] three_tracks) = -1 \<and>
   playlist (remove_items [0] (three_tracks\<lparr>current_index := 5\<rparr>)) = [''B.mp3'', ''C.mp3''] \<and>
   current_index (fold remove_items_step (rev (sort [0])) (three_tracks\<lparr>current_index := 5\<rparr>)) = 4 \<and>
   current_index (remove_items [0] (three_tracks\<lparr>current_index := 5\<rparr>)) = 1"
proof -
  have c: "cursor_ok three_tracks" by (simp add: three_tracks_def cursor_ok_def)
  have a: "remove_items [0] three_tracks =
     three_tracks\<lparr>playlist := [''B.mp3'', ''C.mp3''], original_order := [''B.mp3'', ''C.mp3''],
       current_index := 0\<rparr>"
    by (simp add: three_tracks_def remove_items_def remove_items_step_def delete_at_def
        update_original_order_def Let_def)
  have b: "remove_items [7] three_tracks = three_tracks"
    by (simp add: three_tracks_def remove_items_def remove_items_step_def
        update_original_order_def Let_def)
  have e: "playlist (remove_items [0, 2, 1] three_tracks) = []"
    by (simp add: three_tracks_def remove_items_def remove_items_step_def delete_at_def
        update_original_order_def Let_def)
  from remove_items_reindexing [of three_tracks "[0, 2, 1]" 0] c e
  have d: "cursor_ok (remove_items [0, 2, 1] three_tracks)"
    "current_index (remove_items [0, 2, 1] three_tracks) = -1"
    by blast+
  have f: "fold remove_items_step (rev (sort [0])) (three_tracks\<lparr>current_index := 5\<rparr>) =
      three_tracks\<lparr>playlist := [''B.mp3'', ''C.mp3''], current_index := 4\<rparr>"
    by (simp add: three_tracks_def remove_items_step_def delete_at_def Let_def)
  from remove_items_reindexing [of "three_tracks\<lparr>current_index := 5\<rparr>" "[0]" 0]
  have "playlist (remove_items [0] (three_tracks\<lparr>current_index := 5\<rparr>)) =
      playlist (fold remove_items_step (rev (sort [0])) (three_tracks\<lparr>current_index := 5\<rparr>))"
    and "current_index (remove_items [0] (three_tracks\<lparr>current_index := 5\<rparr>)) =
     (if playlist (fold remove_items_step (rev (sort [0])) (three_tracks\<lparr>current_index := 5\<rparr>)) \<noteq> [] \<and>
         int (length (playlist (fold remove_items_step (rev (sort [0])) (three_tracks\<lparr>current_index := 5\<rparr>)))) \<le>
           current_index (fold remove_items_step (rev (sort [0])) (three_tracks\<lparr>current_index := 5\<rparr>))
      then int (length (playlist (fold remove_items_step (rev (sort [0])) (three_tracks\<lparr>current_index := 5\<rparr>)))) - 1
      else current_index (fold remove_items_step (rev (sort [0])) (three_tracks\<lparr>current_index := 5\<rparr>)))"
    by blast+
  then have g: "playlist (remove_items [0] (three_tracks\<lparr>current_index := 5\<rparr>)) = [''B.mp3'', ''C.mp3'']"
    "current_index (remove_items [0] (three_tracks\<lparr>current_index := 5\<rparr>)) = 1"
    unfolding f by simp_all
  have h: "current_index (fold remove_items_step (rev (sort [0])) (three_tracks\<lparr>current_index := 5\<rparr>)) = 4"
    unfolding f by simp
  from c a b d g h show ?thesis by blast
qed

end
